theory Spec2Isabelle
  imports Main "HOL-Library.Multiset"
begin

section \<open>The connection registry: class ConnectionManager (main.py, lines 54--85)\<close>

text \<open>
  A websocket is an opaque handle of type \<open>'w\<close>. Starlette's WebSocket objects compare
  by identity, so Python's \<^verbatim>\<open>in\<close> and \<^verbatim>\<open>list.remove\<close> on the list of connections are
  membership and removal of the first occurrence with respect to equality on \<open>'w\<close>.

  The transport is an external collaborator. Its two calls are modelled by their
  outcome, which the caller of the model supplies:
  \<^item> \<^verbatim>\<open>await websocket.accept()\<close> returns or raises;
  \<^item> \<^verbatim>\<open>await connection.send_text(message)\<close> returns, raises an exception that is an
    instance of \<^verbatim>\<open>Exception\<close> (caught on line 73), or raises a \<^verbatim>\<open>BaseException\<close> that is not
    (\<^verbatim>\<open>asyncio.CancelledError\<close>, \<^verbatim>\<open>KeyboardInterrupt\<close>), which line 73 does not catch.
  Calls of the logger are not modelled.
\<close>

datatype accept_result = Accepted | Accept_raised

datatype send_result = Sent | Raised_Exception | Raised_BaseException

datatype py_error = Accept_error | Base_exception

record 'w ConnectionManager =
  active_connections :: "'w list"

text \<open>\<^verbatim>\<open>__init__\<close> (lines 55--56).\<close>

definition init_manager :: "'w ConnectionManager" where
  "init_manager = \<lparr>active_connections = []\<rparr>"

text \<open>\<^verbatim>\<open>count\<close> (lines 84--85) and \<^verbatim>\<open>is_empty\<close> (lines 81--82).\<close>

definition count_connections :: "'w ConnectionManager \<Rightarrow> nat" where
  "count_connections self = length (active_connections self)"

definition is_empty :: "'w ConnectionManager \<Rightarrow> bool" where
  "is_empty self = (length (active_connections self) = 0)"

text \<open>
  \<^verbatim>\<open>connect\<close> (lines 58--61): the handshake is awaited first; when it raises, the
  exception leaves \<^verbatim>\<open>connect\<close> before line 60 and nothing is appended. Nothing is
  checked before the append.
\<close>

definition connect ::
  "accept_result \<Rightarrow> 'w ConnectionManager \<Rightarrow> 'w \<Rightarrow> py_error + 'w ConnectionManager" where
  "connect accepted self websocket =
     (case accepted of
        Accept_raised \<Rightarrow> Inl Accept_error
      | Accepted \<Rightarrow>
          Inr (self\<lparr>active_connections := active_connections self @ [websocket]\<rparr>))"

text \<open>
  \<^verbatim>\<open>disconnect\<close> (lines 63--66): \<^verbatim>\<open>list.remove\<close> deletes the first occurrence and is
  only reached when the websocket is in the list.
\<close>

definition disconnect :: "'w ConnectionManager \<Rightarrow> 'w \<Rightarrow> 'w ConnectionManager" where
  "disconnect self websocket =
     (if websocket \<in> set (active_connections self)
      then self\<lparr>active_connections := remove1 websocket (active_connections self)\<rparr>
      else self)"

text \<open>
  \<^verbatim>\<open>broadcast\<close> (lines 68--79), run without any other task touching the registry while
  a send is awaited. Python's \<^verbatim>\<open>for connection in self.active_connections\<close> keeps an
  index into the list itself: each round compares the index with the current length
  of the list and reads the element at the index. The loop body never changes the
  list, so the rounds are counted by \<open>length (active_connections self) - i\<close>.

  \<open>send_text k\<close> is the outcome of the \<open>k\<close>-th call of \<^verbatim>\<open>send_text\<close> of this pass,
  counted from 0. A \<^verbatim>\<open>BaseException\<close> leaves the loop and \<^verbatim>\<open>broadcast\<close> at once, before
  the second loop (lines 78--79) has removed anything.
\<close>

function send_loop ::
  "(nat \<Rightarrow> send_result) \<Rightarrow> 'w ConnectionManager \<Rightarrow> string \<Rightarrow> nat \<Rightarrow> 'w list \<Rightarrow>
     py_error + 'w list" where
  "send_loop send_text self message i disconnected =
     (if i < length (active_connections self)
      then (case send_text i of
              Sent \<Rightarrow> send_loop send_text self message (Suc i) disconnected
            | Raised_Exception \<Rightarrow>
                send_loop send_text self message (Suc i)
                  (disconnected @ [active_connections self ! i])
            | Raised_BaseException \<Rightarrow> Inl Base_exception)
      else Inr disconnected)"
  by pat_completeness auto
termination
  by (relation "measure (\<lambda>(send_text, self, message, i, disconnected).
        length (active_connections self) - i)") auto

declare send_loop.simps [simp del]

definition broadcast ::
  "(nat \<Rightarrow> send_result) \<Rightarrow> 'w ConnectionManager \<Rightarrow> string \<Rightarrow>
     py_error + 'w ConnectionManager" where
  "broadcast send_text self message =
     (case send_loop send_text self message 0 [] of
        Inl e \<Rightarrow> Inl e
      | Inr disconnected \<Rightarrow> Inr (foldl disconnect self disconnected))"

text \<open>
  What the properties of \<^verbatim>\<open>broadcast\<close> are stated with: the members whose send raised
  an \<^verbatim>\<open>Exception\<close>, read off the outcomes position by position, and whether one of the
  first \<open>n\<close> sends raised a \<^verbatim>\<open>BaseException\<close> that is not an \<^verbatim>\<open>Exception\<close>.
\<close>

definition failed_members :: "(nat \<Rightarrow> send_result) \<Rightarrow> 'w list \<Rightarrow> 'w list" where
  "failed_members send_text members =
     map (\<lambda>k. members ! k)
       (filter (\<lambda>k. send_text k = Raised_Exception) [0..<length members])"

definition interrupted :: "(nat \<Rightarrow> send_result) \<Rightarrow> nat \<Rightarrow> bool" where
  "interrupted send_text n = (Raised_BaseException \<in> set (map send_text [0..<n]))"

text \<open>
  Sequences of calls on one registry. A call that raises leaves the registry as it
  was: \<^verbatim>\<open>connect\<close> raises before its append, \<^verbatim>\<open>broadcast\<close> before its removals.
\<close>

datatype 'w registry_call =
    Call_connect 'w accept_result
  | Call_disconnect 'w
  | Call_broadcast string "nat \<Rightarrow> send_result"

fun run_call :: "'w registry_call \<Rightarrow> 'w ConnectionManager \<Rightarrow> 'w ConnectionManager" where
  "run_call (Call_connect websocket accepted) self =
     (case connect accepted self websocket of Inl e \<Rightarrow> self | Inr self' \<Rightarrow> self')"
| "run_call (Call_disconnect websocket) self = disconnect self websocket"
| "run_call (Call_broadcast message send_text) self =
     (case broadcast send_text self message of Inl e \<Rightarrow> self | Inr self' \<Rightarrow> self')"

fun run_calls :: "'w registry_call list \<Rightarrow> 'w ConnectionManager \<Rightarrow> 'w ConnectionManager" where
  "run_calls [] self = self"
| "run_calls (c # cs) self = run_calls cs (run_call c self)"

text \<open>
  The adds of a sequence are its connects whose handshake succeeded. Its effective
  removes are the disconnects of a websocket that is present when they run, and, for
  each broadcast that returns, the sends of that pass that raised an \<^verbatim>\<open>Exception\<close>
  (each is followed by one \<^verbatim>\<open>disconnect\<close> on line 79).
\<close>

fun adds :: "'w registry_call list \<Rightarrow> nat" where
  "adds [] = 0"
| "adds (Call_connect websocket Accepted # cs) = Suc (adds cs)"
| "adds (c # cs) = adds cs"

fun effective_remove :: "'w registry_call \<Rightarrow> 'w ConnectionManager \<Rightarrow> nat" where
  "effective_remove (Call_connect websocket accepted) self = 0"
| "effective_remove (Call_disconnect websocket) self =
     (if websocket \<in> set (active_connections self) then 1 else 0)"
| "effective_remove (Call_broadcast message send_text) self =
     (if interrupted send_text (length (active_connections self)) then 0
      else length (filter (\<lambda>k. send_text k = Raised_Exception)
             [0..<length (active_connections self)]))"

fun effective_removes :: "'w registry_call list \<Rightarrow> 'w ConnectionManager \<Rightarrow> nat" where
  "effective_removes [] self = 0"
| "effective_removes (c # cs) self =
     effective_remove c self + effective_removes cs (run_call c self)"

section \<open>The handshake state of a websocket\<close>

text \<open>
  \<^verbatim>\<open>connect\<close> appends after \<^verbatim>\<open>await websocket.accept()\<close> has returned, so which calls of
  \<^verbatim>\<open>connect\<close> append depends on when the handshake can succeed. Starlette's WebSocket
  is not part of this repository; what is used of it is its handshake state
  (\<^verbatim>\<open>application_state\<close>). \<^verbatim>\<open>accept\<close> sends the ASGI message \<^verbatim>\<open>websocket.accept\<close>. That
  message is allowed only in the state \<^verbatim>\<open>CONNECTING\<close>, in which every websocket starts,
  and moves the websocket to \<^verbatim>\<open>CONNECTED\<close>; in the states \<^verbatim>\<open>CONNECTED\<close> and
  \<^verbatim>\<open>DISCONNECTED\<close> the send raises \<^verbatim>\<open>RuntimeError\<close>. Nothing moves a websocket back to
  \<^verbatim>\<open>CONNECTING\<close>. In the state \<^verbatim>\<open>CONNECTING\<close> the handshake may still fail, for example
  when the client has gone; \<open>handshake_ok\<close> says whether it goes through. A failed
  handshake is taken to leave the state as it was, which allows the most later calls
  to succeed.
\<close>

datatype websocket_state = CONNECTING | CONNECTED | DISCONNECTED

definition accept :: "bool \<Rightarrow> websocket_state \<Rightarrow> accept_result \<times> websocket_state" where
  "accept handshake_ok state =
     (case state of
        CONNECTING \<Rightarrow>
          if handshake_ok then (Accepted, CONNECTED) else (Accept_raised, CONNECTING)
      | CONNECTED \<Rightarrow> (Accept_raised, CONNECTED)
      | DISCONNECTED \<Rightarrow> (Accept_raised, DISCONNECTED))"

text \<open>
  The registry together with the handshake state of every websocket, and \<^verbatim>\<open>connect\<close>
  with the handshake it awaits: the outcome of \<^verbatim>\<open>accept\<close> is no longer given from
  outside but follows from the state of the websocket. The first component of the
  result is the exception raised, if any.
\<close>

record 'w endpoint_world =
  registry :: "'w ConnectionManager"
  state_of :: "'w \<Rightarrow> websocket_state"

definition websocket_connect ::
  "bool \<Rightarrow> 'w endpoint_world \<Rightarrow> 'w \<Rightarrow> py_error option \<times> 'w endpoint_world" where
  "websocket_connect handshake_ok world websocket =
     (case accept handshake_ok (state_of world websocket) of
        (accepted, state') \<Rightarrow>
          (case connect accepted (registry world) websocket of
             Inl e \<Rightarrow>
               (Some e, world\<lparr>state_of := (state_of world)(websocket := state')\<rparr>)
           | Inr self' \<Rightarrow>
               (None, \<lparr>registry = self',
                        state_of = (state_of world)(websocket := state')\<rparr>)))"

text \<open>
  The calls that change the registry or the state of a websocket: \<^verbatim>\<open>connect\<close>,
  \<^verbatim>\<open>disconnect\<close>, \<^verbatim>\<open>broadcast\<close> (a call that raises leaves the registry as it was), and
  the closing of a websocket, by the client or after a failed send. A new
  application has an empty registry and only websockets that are still to be
  accepted.
\<close>

datatype 'w world_call =
    World_connect 'w bool
  | World_disconnect 'w
  | World_broadcast string "nat \<Rightarrow> send_result"
  | World_closes 'w

fun world_step :: "'w world_call \<Rightarrow> 'w endpoint_world \<Rightarrow> 'w endpoint_world" where
  "world_step (World_connect websocket handshake_ok) world =
     snd (websocket_connect handshake_ok world websocket)"
| "world_step (World_disconnect websocket) world =
     world\<lparr>registry := disconnect (registry world) websocket\<rparr>"
| "world_step (World_broadcast message send_text) world =
     (case broadcast send_text (registry world) message of
        Inl e \<Rightarrow> world
      | Inr self' \<Rightarrow> world\<lparr>registry := self'\<rparr>)"
| "world_step (World_closes websocket) world =
     world\<lparr>state_of := (state_of world)(websocket := DISCONNECTED)\<rparr>"

definition run_world :: "'w world_call list \<Rightarrow> 'w endpoint_world \<Rightarrow> 'w endpoint_world" where
  "run_world calls world = foldl (\<lambda>world call. world_step call world) world calls"

definition initial_world :: "'w endpoint_world" where
  "initial_world = \<lparr>registry = init_manager, state_of = (\<lambda>websocket. CONNECTING)\<rparr>"

text \<open>An invariant: every websocket in the registry has been accepted.\<close>

definition registered_accepted :: "'w endpoint_world \<Rightarrow> bool" where
  "registered_accepted world =
     (\<forall>websocket \<in> set (active_connections (registry world)).
        state_of world websocket \<noteq> CONNECTING)"

section \<open>broadcast, one awaited send at a time\<close>

text \<open>
  \<^verbatim>\<open>broadcast\<close> gives up control at each \<^verbatim>\<open>await connection.send_text(message)\<close>
  (line 72); the event loop may run other tasks before it resumes the call. Between
  two awaits the call runs alone. A suspended call is its local state: the message,
  the connection whose send is awaited (the loop variable), the position of the list
  iterator and the list \<^verbatim>\<open>disconnected\<close>. The registry is not part of it: it is the
  shared object, read again at every step.
\<close>

record 'w broadcast_frame =
  frame_message :: string
  awaited :: 'w
  next_index :: nat
  frame_disconnected :: "'w list"

datatype 'w broadcast_status =
    Suspended "'w broadcast_frame"
  | Finished "'w ConnectionManager"
  | Propagated

text \<open>
  From the head of the first loop to the next await, or through the second loop
  (lines 78--79, which has no await) to the return.
\<close>

definition broadcast_next ::
  "'w ConnectionManager \<Rightarrow> string \<Rightarrow> nat \<Rightarrow> 'w list \<Rightarrow> 'w broadcast_status" where
  "broadcast_next self message i disconnected =
     (if i < length (active_connections self)
      then Suspended \<lparr>frame_message = message, awaited = active_connections self ! i,
             next_index = Suc i, frame_disconnected = disconnected\<rparr>
      else Finished (foldl disconnect self disconnected))"

definition broadcast_start :: "'w ConnectionManager \<Rightarrow> string \<Rightarrow> 'w broadcast_status" where
  "broadcast_start self message = broadcast_next self message 0 []"

text \<open>
  The awaited send has finished with \<open>result\<close>; \<open>self\<close> is the registry as it is now.
\<close>

definition broadcast_resume ::
  "send_result \<Rightarrow> 'w ConnectionManager \<Rightarrow> 'w broadcast_frame \<Rightarrow> 'w broadcast_status" where
  "broadcast_resume result self frame =
     (case result of
        Sent \<Rightarrow>
          broadcast_next self (frame_message frame) (next_index frame)
            (frame_disconnected frame)
      | Raised_Exception \<Rightarrow>
          broadcast_next self (frame_message frame) (next_index frame)
            (frame_disconnected frame @ [awaited frame])
      | Raised_BaseException \<Rightarrow> Propagated)"

text \<open>
  A whole call of \<^verbatim>\<open>broadcast\<close> among other tasks. The script has one entry for each
  awaited send: the outcome of the send, and the calls other tasks made on the
  registry while the send was awaited. The result is what \<^verbatim>\<open>broadcast\<close> returned or
  raised, with a log that has one entry for each call of \<^verbatim>\<open>send_text\<close>, in order: the
  connection, and the list of connections in the registry at the time of the call.
  The result is \<open>None\<close> when the script ends while a send is still awaited.
\<close>

fun broadcast_drive ::
  "(send_result \<times> 'w registry_call list) list \<Rightarrow> 'w ConnectionManager \<Rightarrow>
     'w broadcast_status \<Rightarrow> ('w \<times> 'w list) list \<Rightarrow>
     ((py_error + 'w ConnectionManager) \<times> ('w \<times> 'w list) list) option" where
  "broadcast_drive script self (Finished self') log = Some (Inr self', log)"
| "broadcast_drive script self Propagated log = Some (Inl Base_exception, log)"
| "broadcast_drive [] self (Suspended frame) log = None"
| "broadcast_drive ((result, others) # script) self (Suspended frame) log =
     broadcast_drive script (run_calls others self)
       (broadcast_resume result (run_calls others self) frame)
       (log @ [(awaited frame, active_connections self)])"

definition broadcast_interleaved ::
  "(send_result \<times> 'w registry_call list) list \<Rightarrow> 'w ConnectionManager \<Rightarrow> string \<Rightarrow>
     ((py_error + 'w ConnectionManager) \<times> ('w \<times> 'w list) list) option" where
  "broadcast_interleaved script self message =
     broadcast_drive script self (broadcast_start self message) []"

text \<open>
  The registry after the calls other tasks made during the first \<open>j\<close> awaited sends
  of a script.
\<close>

definition registry_after ::
  "(send_result \<times> 'w registry_call list) list \<Rightarrow> 'w ConnectionManager \<Rightarrow> nat \<Rightarrow>
     'w ConnectionManager" where
  "registry_after script self j = run_calls (concat (map snd (take j script))) self"

section \<open>The application: shared state, tasks and the event loop\<close>

text \<open>
  The application state of \<^verbatim>\<open>lifespan\<close> (lines 21--23) with the tasks of the event loop.
  asyncio runs one task at a time and changes task only at an \<^verbatim>\<open>await\<close>, so a step of
  the model is the piece of one coroutine between two awaits. Each task is kept as
  the place where it is suspended, with its local variables.

  Instants are microseconds, the resolution of \<^verbatim>\<open>datetime\<close>. The model has one clock,
  read by \<^verbatim>\<open>datetime.utcnow()\<close> and used for waking sleepers; the reads within one step
  return the same instant. \<open>outbox\<close> records each call of \<^verbatim>\<open>send_text\<close>: the connection
  and the message.

  The tasks are \<^verbatim>\<open>notify_clients_periodically\<close>, created on line 37, and the
  \<^verbatim>\<open>graceful_shutdown\<close> tasks created by \<^verbatim>\<open>handle_signal\<close> on line 31. The end of the
  lifespan (lines 41--47) is not modelled.
\<close>

definition seconds :: "int \<Rightarrow> int" where
  "seconds n = n * 1000000"

definition drain_timeout :: int where
  "drain_timeout = seconds (30 * 60)"

definition notification :: string where
  "notification = ''Test notification''"

definition shutdown_warning :: string where
  "shutdown_warning = ''Server is shutting down soon. Please reconnect later.''"

datatype 'w notify_pc =
    Notify_created
  | Notify_sleeping int
  | Notify_broadcasting "'w broadcast_frame"
  | Notify_returned
  | Notify_raised

datatype 'w shutdown_pc =
    Shutdown_created
  | Shutdown_broadcasting "'w broadcast_frame"
  | Shutdown_sleeping int int
  | Shutdown_returned
  | Shutdown_raised

record 'w server =
  manager :: "'w ConnectionManager"
  shutdown_event :: bool
  shutdown_requested_at :: "int option"
  clock :: int
  outbox :: "('w \<times> string) list"
  notify_task :: "'w notify_pc"
  shutdown_tasks :: "'w shutdown_pc list"

text \<open>\<^verbatim>\<open>lifespan\<close> up to its \<^verbatim>\<open>yield\<close> (lines 21--37), at the instant \<open>now\<close>.\<close>

definition lifespan_startup :: "int \<Rightarrow> 'w server" where
  "lifespan_startup now =
     \<lparr>manager = init_manager, shutdown_event = False, shutdown_requested_at = None,
      clock = now, outbox = [], notify_task = Notify_created, shutdown_tasks = []\<rparr>"

text \<open>
  \<^verbatim>\<open>get_status\<close> (lines 98--109). A \<^verbatim>\<open>datetime\<close> is always true in a condition, so
  line 102 tests for \<^verbatim>\<open>None\<close>; \<^verbatim>\<open>isoformat\<close> is kept as the instant itself.
\<close>

record status =
  status_active_connections :: nat
  status_shutdown_requested :: bool
  status_shutdown_requested_at :: "int option"

definition get_status :: "'w server \<Rightarrow> status" where
  "get_status app =
     \<lparr>status_active_connections = count_connections (manager app),
      status_shutdown_requested = shutdown_event app,
      status_shutdown_requested_at =
        (case shutdown_requested_at app of None \<Rightarrow> None | Some requested \<Rightarrow> Some requested)\<rparr>"

text \<open>\<^verbatim>\<open>handle_signal\<close> (lines 28--31): the new task runs when the loop next picks it.\<close>

definition handle_signal :: "'w server \<Rightarrow> 'w server" where
  "handle_signal app =
     (if \<not> shutdown_event app
      then app\<lparr>shutdown_tasks := shutdown_tasks app @ [Shutdown_created]\<rparr>
      else app)"

text \<open>
  \<^verbatim>\<open>notify_clients_periodically\<close> (lines 112--119). \<open>notify_loop_test\<close> is line 114 with
  the start of the sleep on line 115; \<open>notify_in_broadcast\<close> continues after a step of
  the \<^verbatim>\<open>broadcast\<close> of line 119; \<open>notify_clients_periodically\<close> resumes the task where
  it is suspended. A sleeper is not resumed before its time. \<open>result\<close> is the outcome
  of the awaited send and is read only when a send is awaited.
\<close>

definition notify_loop_test :: "'w server \<Rightarrow> 'w server" where
  "notify_loop_test app =
     (if \<not> shutdown_event app
      then app\<lparr>notify_task := Notify_sleeping (clock app + seconds 10)\<rparr>
      else app\<lparr>notify_task := Notify_returned\<rparr>)"

definition notify_in_broadcast :: "'w broadcast_status \<Rightarrow> 'w server \<Rightarrow> 'w server" where
  "notify_in_broadcast st app =
     (case st of
        Suspended frame \<Rightarrow>
          app\<lparr>notify_task := Notify_broadcasting frame,
              outbox := outbox app @ [(awaited frame, frame_message frame)]\<rparr>
      | Finished self' \<Rightarrow> notify_loop_test (app\<lparr>manager := self'\<rparr>)
      | Propagated \<Rightarrow> app\<lparr>notify_task := Notify_raised\<rparr>)"

definition notify_clients_periodically :: "send_result \<Rightarrow> 'w server \<Rightarrow> 'w server" where
  "notify_clients_periodically result app =
     (case notify_task app of
        Notify_created \<Rightarrow> notify_loop_test app
      | Notify_sleeping wake \<Rightarrow>
          if clock app < wake then app
          else if count_connections (manager app) > 0
          then notify_in_broadcast (broadcast_start (manager app) notification) app
          else notify_loop_test app
      | Notify_broadcasting frame \<Rightarrow>
          notify_in_broadcast (broadcast_resume result (manager app) frame) app
      | Notify_returned \<Rightarrow> app
      | Notify_raised \<Rightarrow> app)"

text \<open>
  \<^verbatim>\<open>graceful_shutdown\<close> (lines 122--140). \<open>shutdown_poll\<close> is the loop of lines 131--138
  from its test to the sleep, or past the loop to line 140. \<open>shutdown_after_broadcast\<close>
  continues after a step of the \<^verbatim>\<open>broadcast\<close> of line 128; line 130 reads
  \<^verbatim>\<open>shutdown_requested_at\<close> from the shared state as it is then and would raise a
  \<^verbatim>\<open>TypeError\<close> on \<^verbatim>\<open>None\<close>. \<open>graceful_shutdown\<close> resumes a task where it is suspended and
  returns its new place.
\<close>

definition shutdown_poll :: "int \<Rightarrow> 'w server \<Rightarrow> 'w shutdown_pc \<times> 'w server" where
  "shutdown_poll deadline app =
     (if clock app < deadline \<and> \<not> is_empty (manager app)
      then (Shutdown_sleeping deadline (clock app + seconds 5), app)
      else (Shutdown_returned, app\<lparr>shutdown_event := True\<rparr>))"

definition shutdown_after_broadcast ::
  "'w broadcast_status \<Rightarrow> 'w server \<Rightarrow> 'w shutdown_pc \<times> 'w server" where
  "shutdown_after_broadcast st app =
     (case st of
        Suspended frame \<Rightarrow>
          (Shutdown_broadcasting frame,
           app\<lparr>outbox := outbox app @ [(awaited frame, frame_message frame)]\<rparr>)
      | Finished self' \<Rightarrow>
          (case shutdown_requested_at app of
             None \<Rightarrow> (Shutdown_raised, app\<lparr>manager := self'\<rparr>)
           | Some requested \<Rightarrow>
               shutdown_poll (requested + drain_timeout) (app\<lparr>manager := self'\<rparr>))
      | Propagated \<Rightarrow> (Shutdown_raised, app))"

definition graceful_shutdown ::
  "send_result \<Rightarrow> 'w shutdown_pc \<Rightarrow> 'w server \<Rightarrow> 'w shutdown_pc \<times> 'w server" where
  "graceful_shutdown result pc app =
     (case pc of
        Shutdown_created \<Rightarrow>
          shutdown_after_broadcast (broadcast_start (manager app) shutdown_warning)
            (app\<lparr>shutdown_requested_at := Some (clock app)\<rparr>)
      | Shutdown_broadcasting frame \<Rightarrow>
          shutdown_after_broadcast (broadcast_resume result (manager app) frame) app
      | Shutdown_sleeping deadline wake \<Rightarrow>
          if clock app < wake then (pc, app) else shutdown_poll deadline app
      | Shutdown_returned \<Rightarrow> (pc, app)
      | Shutdown_raised \<Rightarrow> (pc, app))"

text \<open>
  What the event loop can do next: time passes; a client's \<^verbatim>\<open>websocket_endpoint\<close>
  (lines 88--95) comes back from the handshake inside \<^verbatim>\<open>connect\<close>, or catches
  \<^verbatim>\<open>WebSocketDisconnect\<close> and calls \<^verbatim>\<open>disconnect\<close>; a signal arrives; the notify task or
  one of the shutdown tasks is resumed.
\<close>

datatype 'w event =
    Tick nat
  | Client_connects 'w accept_result
  | Client_disconnects 'w
  | Signal
  | Run_notify send_result
  | Run_shutdown nat send_result

fun step :: "'w event \<Rightarrow> 'w server \<Rightarrow> 'w server" where
  "step (Tick d) app = app\<lparr>clock := clock app + int d\<rparr>"
| "step (Client_connects websocket accepted) app =
     (case connect accepted (manager app) websocket of
        Inl e \<Rightarrow> app
      | Inr self' \<Rightarrow> app\<lparr>manager := self'\<rparr>)"
| "step (Client_disconnects websocket) app =
     app\<lparr>manager := disconnect (manager app) websocket\<rparr>"
| "step Signal app = handle_signal app"
| "step (Run_notify result) app = notify_clients_periodically result app"
| "step (Run_shutdown k result) app =
     (if k < length (shutdown_tasks app)
      then (case graceful_shutdown result (shutdown_tasks app ! k) app of
              (pc, app') \<Rightarrow> app'\<lparr>shutdown_tasks := (shutdown_tasks app')[k := pc]\<rparr>)
      else app)"

definition run :: "'w event list \<Rightarrow> 'w server \<Rightarrow> 'w server" where
  "run events app = foldl (\<lambda>app event. step event app) app events"

text \<open>
  An invariant of the runs: as long as no timestamp is recorded, the event is not set
  and no shutdown task has run yet.
\<close>

definition requested_inv :: "'w server \<Rightarrow> bool" where
  "requested_inv app =
     (shutdown_requested_at app = None \<longrightarrow>
        \<not> shutdown_event app \<and> (\<forall>pc \<in> set (shutdown_tasks app). pc = Shutdown_created))"

section \<open>Properties of disconnect\<close>

text \<open>
  Claim C7. For every connection that is not in the registry, \<^verbatim>\<open>disconnect\<close> raises
  nothing and returns the registry as it was.
\<close>

theorem disconnect_absent_noop:
  "websocket \<notin> set (active_connections self) \<Longrightarrow> disconnect self websocket = self"
  by (simp add: disconnect_def)

theorem disconnect_absent_noop_witness:
  "(3::nat) \<notin> set (active_connections \<lparr>active_connections = [1, 2]\<rparr>) \<and>
   disconnect \<lparr>active_connections = [1, 2]\<rparr> (3::nat) = \<lparr>active_connections = [1, 2]\<rparr>"
  using disconnect_absent_noop [of "3::nat" "\<lparr>active_connections = [1, 2]\<rparr>"]
  by simp

section \<open>Properties of broadcast\<close>

text \<open>
  The first loop, in closed form. When no send raises a \<^verbatim>\<open>BaseException\<close>, the loop
  started at index \<open>i\<close> visits every later position of the list and collects the
  members whose send raised an \<^verbatim>\<open>Exception\<close>, in order.
\<close>

lemma send_loop_collects:
  "\<not> interrupted send_text (length (active_connections self)) \<Longrightarrow>
   send_loop send_text self message i disconnected =
     Inr (disconnected @ map (\<lambda>k. active_connections self ! k)
       (filter (\<lambda>k. send_text k = Raised_Exception) [i..<length (active_connections self)]))"
proof (induction send_text self message i disconnected rule: send_loop.induct)
  case (1 send_text self message i disconnected)
  show ?case
  proof (cases "i < length (active_connections self)")
    case False
    then show ?thesis by (simp add: send_loop.simps)
  next
    case True
    then have "send_text i \<in> set (map send_text [0..<length (active_connections self)])"
      by simp
    then have nb: "send_text i \<noteq> Raised_BaseException"
      using "1.prems" unfolding interrupted_def by metis
    have range: "[i..<length (active_connections self)] =
        i # [Suc i..<length (active_connections self)]"
      using True by (simp add: upt_conv_Cons)
    show ?thesis
    proof (cases "send_text i")
      case Sent
      then show ?thesis
        using True "1.IH"(1) "1.prems" range
        by (subst send_loop.simps) simp
    next
      case Raised_Exception
      then show ?thesis
        using True "1.IH"(2) "1.prems" range
        by (subst send_loop.simps) simp
    next
      case Raised_BaseException
      then show ?thesis using nb by simp
    qed
  qed
qed

lemma send_loop_interrupted:
  "i \<le> k \<Longrightarrow> k < length (active_connections self) \<Longrightarrow>
   send_text k = Raised_BaseException \<Longrightarrow>
   send_loop send_text self message i disconnected = Inl Base_exception"
proof (induction send_text self message i disconnected rule: send_loop.induct)
  case (1 send_text self message i disconnected)
  have lt: "i < length (active_connections self)" using "1.prems" by simp
  show ?case
  proof (cases "send_text i")
    case Sent
    then have "i \<noteq> k" using "1.prems" by auto
    then have "Suc i \<le> k" using "1.prems" by simp
    then show ?thesis
      using lt Sent "1.IH"(1) "1.prems" by (subst send_loop.simps) simp
  next
    case Raised_Exception
    then have "i \<noteq> k" using "1.prems" by auto
    then have "Suc i \<le> k" using "1.prems" by simp
    then show ?thesis
      using lt Raised_Exception "1.IH"(2) "1.prems" by (subst send_loop.simps) simp
  next
    case Raised_BaseException
    then show ?thesis using lt by (subst send_loop.simps) simp
  qed
qed

lemma broadcast_returns:
  "\<not> interrupted send_text (length (active_connections self)) \<Longrightarrow>
   broadcast send_text self message =
     Inr (foldl disconnect self (failed_members send_text (active_connections self)))"
  by (simp add: broadcast_def failed_members_def send_loop_collects)

lemma broadcast_interrupted:
  "interrupted send_text (length (active_connections self)) \<Longrightarrow>
   broadcast send_text self message = Inl Base_exception"
proof -
  assume "interrupted send_text (length (active_connections self))"
  then obtain k where "k < length (active_connections self)"
      "send_text k = Raised_BaseException"
    by (auto simp: interrupted_def)
  then have "send_loop send_text self message 0 [] = Inl Base_exception"
    by (intro send_loop_interrupted [of 0 k]) simp_all
  then show ?thesis by (simp add: broadcast_def)
qed

text \<open>The second loop: one \<^verbatim>\<open>disconnect\<close> for each collected member.\<close>

lemma disconnect_remove1:
  "active_connections (disconnect self websocket) = remove1 websocket (active_connections self)"
  by (simp add: disconnect_def remove1_idem)

lemma foldl_disconnect_mset:
  "mset (active_connections (foldl disconnect self ds)) = mset (active_connections self) - mset ds"
  by (induction ds arbitrary: self) (simp_all add: disconnect_remove1)

lemma foldl_disconnect_distinct:
  "distinct (active_connections self) \<Longrightarrow>
   active_connections (foldl disconnect self ds) =
     filter (\<lambda>c. c \<notin> set ds) (active_connections self)"
proof (induction ds arbitrary: self)
  case Nil
  then show ?case by simp
next
  case (Cons d ds)
  have "distinct (active_connections (disconnect self d))"
    using Cons.prems by (simp add: disconnect_remove1)
  then have "active_connections (foldl disconnect (disconnect self d) ds) =
      filter (\<lambda>c. c \<notin> set ds) (remove1 d (active_connections self))"
    using Cons.IH by (simp add: disconnect_remove1)
  also have "\<dots> = filter (\<lambda>c. c \<notin> set (d # ds)) (active_connections self)"
    using Cons.prems
    by (auto simp: distinct_remove1_removeAll removeAll_filter_not_eq intro!: filter_cong)
  finally show ?case by simp
qed

lemma failed_members_subset: "set (failed_members send_text members) \<subseteq> set members"
  by (auto simp: failed_members_def)

lemma failed_members_submset: "mset (failed_members send_text members) \<subseteq># mset members"
proof -
  have "mset (failed_members send_text members) =
        image_mset (\<lambda>k. members ! k)
          (filter_mset (\<lambda>k. send_text k = Raised_Exception) (mset [0..<length members]))"
    by (simp add: failed_members_def)
  also have "\<dots> \<subseteq># image_mset (\<lambda>k. members ! k) (mset [0..<length members])"
    by (intro image_mset_subseteq_mono multiset_filter_subset)
  also have "\<dots> = mset (map (\<lambda>k. members ! k) [0..<length members])"
    by simp
  also have "\<dots> = mset members"
    by (simp add: map_nth)
  finally show ?thesis .
qed

lemma length_failed_members:
  "length (failed_members send_text members) =
   length (filter (\<lambda>k. send_text k = Raised_Exception) [0..<length members])"
  by (simp add: failed_members_def)

text \<open>
  Claim C9. Whatever the registry and the message, when the send succeeds for every
  member, \<^verbatim>\<open>broadcast\<close> returns and leaves \<^verbatim>\<open>active_connections\<close> as it was: the same
  list, so the same members, multiplicities and order.
\<close>

theorem broadcast_all_sent_unchanged:
  assumes "\<forall>k < length (active_connections self). send_text k = Sent"
  shows "broadcast send_text self message = Inr self"
proof -
  have "\<not> interrupted send_text (length (active_connections self))"
    using assms by (auto simp: interrupted_def)
  moreover have "failed_members send_text (active_connections self) = []"
    using assms by (simp add: failed_members_def filter_empty_conv)
  ultimately show ?thesis by (simp add: broadcast_returns)
qed

theorem broadcast_all_sent_unchanged_witness:
  "broadcast (\<lambda>k. Sent) \<lparr>active_connections = [10, 20, 20 :: nat]\<rparr> ''Test notification'' =
     Inr \<lparr>active_connections = [10, 20, 20]\<rparr>"
  using broadcast_all_sent_unchanged [of "\<lparr>active_connections = [10, 20, 20 :: nat]\<rparr>"
      "\<lambda>k. Sent" "''Test notification''"]
  by simp

section \<open>The count after a sequence of calls\<close>

lemma run_call_count:
  "count_connections (run_call c self) + effective_remove c self =
   count_connections self + adds [c]"
proof (cases c)
  case (Call_connect websocket accepted)
  then show ?thesis
    by (cases accepted) (simp_all add: connect_def count_connections_def)
next
  case (Call_disconnect websocket)
  then show ?thesis
    by (auto simp: count_connections_def disconnect_def length_remove1
        intro: Suc_pred length_pos_if_in_set)
next
  case (Call_broadcast message send_text)
  show ?thesis
  proof (cases "interrupted send_text (length (active_connections self))")
    case True
    then show ?thesis
      using Call_broadcast by (simp add: broadcast_interrupted)
  next
    case False
    let ?failed = "failed_members send_text (active_connections self)"
    have "size (mset (active_connections (foldl disconnect self ?failed))) =
          size (mset (active_connections self)) - size (mset ?failed)"
      by (simp only: foldl_disconnect_mset size_Diff_submset [OF failed_members_submset])
    moreover have "size (mset ?failed) \<le> size (mset (active_connections self))"
      by (rule size_mset_mono [OF failed_members_submset])
    ultimately show ?thesis
      using Call_broadcast False
      by (simp add: broadcast_returns count_connections_def length_failed_members)
  qed
qed

lemma run_calls_count:
  "count_connections (run_calls cs self) + effective_removes cs self =
   count_connections self + adds cs"
proof (induction cs arbitrary: self)
  case Nil
  then show ?case by simp
next
  case (Cons c cs)
  have "adds (c # cs) = adds [c] + adds cs"
  proof (cases c)
    case (Call_connect websocket accepted)
    then show ?thesis by (cases accepted) simp_all
  qed simp_all
  then show ?case
    using Cons.IH [of "run_call c self"] run_call_count [of c self] by simp
qed

text \<open>
  Claim C6. For every finite sequence of \<^verbatim>\<open>connect\<close>, \<^verbatim>\<open>disconnect\<close> and \<^verbatim>\<open>broadcast\<close>
  calls on a new registry, \<^verbatim>\<open>count()\<close> afterwards is the number of adds less the number
  of effective removes. A \<^verbatim>\<open>disconnect\<close> of a member that is already absent is not
  counted; the removals a \<^verbatim>\<open>broadcast\<close> makes for failed sends are.
\<close>

theorem count_is_adds_minus_effective_removes:
  "int (count_connections (run_calls cs init_manager)) =
   int (adds cs) - int (effective_removes cs init_manager)"
  using run_calls_count [of cs init_manager]
  by (simp add: count_connections_def init_manager_def)

section \<open>connect and the handshake\<close>

text \<open>
  \<^verbatim>\<open>connect\<close> with its handshake, in closed form: it appends exactly when the websocket
  is still to be accepted and the handshake goes through; otherwise the exception of
  \<^verbatim>\<open>accept\<close> leaves \<^verbatim>\<open>connect\<close> before line 60 and nothing is appended.
\<close>

lemma websocket_connect_eq:
  "websocket_connect handshake_ok world websocket =
     (if handshake_ok \<and> state_of world websocket = CONNECTING
      then (None,
            \<lparr>registry = (registry world)
               \<lparr>active_connections := active_connections (registry world) @ [websocket]\<rparr>,
             state_of = (state_of world)(websocket := CONNECTED)\<rparr>)
      else (Some Accept_error, world))"
  by (cases "state_of world websocket")
    (auto simp: websocket_connect_def accept_def connect_def fun_upd_idem)

text \<open>
  Every call keeps the invariant that a websocket in the registry has been accepted:
  \<^verbatim>\<open>connect\<close> appends only after a successful handshake, \<^verbatim>\<open>disconnect\<close> and \<^verbatim>\<open>broadcast\<close>
  only remove, and a websocket that closes does not return to \<^verbatim>\<open>CONNECTING\<close>.
\<close>

lemma foldl_disconnect_subset:
  "set (active_connections (foldl disconnect self ds)) \<subseteq> set (active_connections self)"
proof -
  have "mset (active_connections (foldl disconnect self ds)) \<subseteq># mset (active_connections self)"
    by (simp add: foldl_disconnect_mset)
  from set_mset_mono [OF this] show ?thesis by simp
qed

lemma broadcast_subset:
  "broadcast send_text self message = Inr self' \<Longrightarrow>
   set (active_connections self') \<subseteq> set (active_connections self)"
  by (auto simp: broadcast_def split: sum.splits dest: subsetD [OF foldl_disconnect_subset])

lemma registered_accepted_step:
  "registered_accepted world \<Longrightarrow> registered_accepted (world_step call world)"
proof (cases call)
  case (World_connect websocket handshake_ok)
  then show "registered_accepted world \<Longrightarrow> ?thesis"
    by (auto simp: registered_accepted_def websocket_connect_eq)
next
  case (World_disconnect websocket)
  then show "registered_accepted world \<Longrightarrow> ?thesis"
    by (auto simp: registered_accepted_def disconnect_def dest: notin_set_remove1)
next
  case (World_broadcast message send_text)
  then show "registered_accepted world \<Longrightarrow> ?thesis"
    by (auto simp: registered_accepted_def split: sum.splits dest: subsetD [OF broadcast_subset])
next
  case (World_closes websocket)
  then show "registered_accepted world \<Longrightarrow> ?thesis"
    by (auto simp: registered_accepted_def)
qed

lemma registered_accepted_run:
  "registered_accepted world \<Longrightarrow> registered_accepted (run_world calls world)"
  unfolding run_world_def
  by (induction calls arbitrary: world) (simp_all add: registered_accepted_step)

lemma registered_accepted_initial: "registered_accepted initial_world"
  by (simp add: registered_accepted_def initial_world_def init_manager_def)

text \<open>
  Claim C3, as stated: \<^verbatim>\<open>connect\<close> of a connection that is already in the registry
  fails with a duplicate error of the registry. It fails, but not so. Websocket 7 is
  connected and is in the registry; a second \<^verbatim>\<open>connect\<close> raises the error of
  \<^verbatim>\<open>accept\<close> (\<^verbatim>\<open>Accept_error\<close>, Starlette's \<^verbatim>\<open>RuntimeError\<close>) and the registry still holds 7
  once. The error does not come from a test of the registry: after 7 has been
  disconnected and the registry is empty, \<^verbatim>\<open>connect\<close> of 7 raises the same error.
\<close>

theorem connect_error_is_not_duplicate_check:
  "(let world = run_world [World_connect 7 True] initial_world;
        left = run_world [World_connect 7 True, World_disconnect 7] initial_world
    in active_connections (registry world) = [7::nat] \<and>
       fst (websocket_connect True world 7) = Some Accept_error \<and>
       active_connections (registry (snd (websocket_connect True world 7))) = [7] \<and>
       active_connections (registry left) = [] \<and>
       fst (websocket_connect True left 7) = Some Accept_error)"
  by (simp add: run_world_def initial_world_def init_manager_def websocket_connect_eq
      disconnect_def Let_def)

text \<open>
  Claim C3, amended. For every connection that is in the registry, in every state
  the registry and the websockets reach from a new application, \<^verbatim>\<open>connect\<close> fails and
  inserts no second entry: the registry and the websockets are left as they were.
  The error is the one \<^verbatim>\<open>websocket.accept()\<close> raises for a websocket that has been
  accepted before; \<^verbatim>\<open>connect\<close> has no duplicate check of its own and the code has no
  duplicate error.
\<close>

theorem connect_registered_raises:
  assumes "websocket \<in> set (active_connections (registry (run_world calls initial_world)))"
  shows "websocket_connect handshake_ok (run_world calls initial_world) websocket =
           (Some Accept_error, run_world calls initial_world)"
proof -
  have "registered_accepted (run_world calls initial_world)"
    by (rule registered_accepted_run [OF registered_accepted_initial])
  then have "state_of (run_world calls initial_world) websocket \<noteq> CONNECTING"
    using assms by (simp add: registered_accepted_def)
  then show ?thesis
    by (simp add: websocket_connect_eq)
qed

theorem connect_registered_raises_witness:
  "(7::nat) \<in> set (active_connections (registry (run_world [World_connect 7 True] initial_world))) \<and>
   websocket_connect True (run_world [World_connect 7 True] initial_world) (7::nat) =
     (Some Accept_error, run_world [World_connect 7 True] initial_world) \<and>
   active_connections (registry (run_world [World_connect 7 True] initial_world)) = [7::nat]"
  using connect_registered_raises [of "7::nat" "[World_connect 7 True]" True]
  by (simp add: run_world_def initial_world_def init_manager_def websocket_connect_eq)

text \<open>
  Claim C10, as stated: \<^verbatim>\<open>connect\<close> always appends and makes the count one larger, so
  that two calls with the same connection leave it present twice. They do not: the
  first \<^verbatim>\<open>connect\<close> of websocket 7 appends it, the second raises the error of \<^verbatim>\<open>accept\<close>
  and 7 is present once. A \<^verbatim>\<open>connect\<close> whose handshake fails appends nothing either.
\<close>

theorem connect_twice_counterexample:
  "(let once = snd (websocket_connect True initial_world (7::nat));
        twice = websocket_connect True once 7
    in active_connections (registry once) = [7] \<and>
       fst twice = Some Accept_error \<and>
       active_connections (registry (snd twice)) = [7] \<and>
       count_list (active_connections (registry (snd twice))) 7 = 1 \<and>
       websocket_connect False initial_world (7::nat) = (Some Accept_error, initial_world))"
  by (simp add: initial_world_def init_manager_def websocket_connect_eq Let_def)

text \<open>
  Claim C10, amended. \<^verbatim>\<open>connect\<close> has no duplicate check and raises no duplicate error.
  For every registry and websocket: when the websocket is still to be accepted and
  its handshake goes through, \<^verbatim>\<open>connect\<close> raises nothing, appends the websocket at the
  end of \<^verbatim>\<open>active_connections\<close> and makes \<^verbatim>\<open>count()\<close> exactly one larger; in every other
  case it raises the error of \<^verbatim>\<open>accept\<close> and appends nothing. After a \<^verbatim>\<open>connect\<close> that
  appended, every further \<^verbatim>\<open>connect\<close> with the same websocket raises and leaves the
  registry as it is, so the websocket is not appended a second time.
\<close>

theorem connect_appends_once:
  "websocket_connect handshake_ok world websocket =
     (if handshake_ok \<and> state_of world websocket = CONNECTING
      then (None,
            \<lparr>registry = (registry world)
               \<lparr>active_connections := active_connections (registry world) @ [websocket]\<rparr>,
             state_of = (state_of world)(websocket := CONNECTED)\<rparr>)
      else (Some Accept_error, world)) \<and>
   count_connections ((registry world)
      \<lparr>active_connections := active_connections (registry world) @ [websocket]\<rparr>) =
     count_connections (registry world) + 1 \<and>
   websocket_connect again
     \<lparr>registry = (registry world)
        \<lparr>active_connections := active_connections (registry world) @ [websocket]\<rparr>,
      state_of = (state_of world)(websocket := CONNECTED)\<rparr> websocket =
     (Some Accept_error,
      \<lparr>registry = (registry world)
         \<lparr>active_connections := active_connections (registry world) @ [websocket]\<rparr>,
       state_of = (state_of world)(websocket := CONNECTED)\<rparr>)"
  by (simp add: websocket_connect_eq count_connections_def)

section \<open>broadcast among other tasks\<close>

text \<open>
  The rounds of a pass, whatever the other tasks do. When the pass makes \<open>n\<close> sends,
  the \<open>j\<close>-th send goes to the connection at index \<open>j\<close> of the registry as it is
  after the first \<open>j\<close> awaits, and the removals are made at the end, on the registry as
  it is then.
\<close>

lemma run_calls_append: "run_calls (cs @ ds) self = run_calls ds (run_calls cs self)"
  by (induction cs arbitrary: self) simp_all

lemma registry_after_0: "registry_after script self 0 = self"
  by (simp add: registry_after_def)

lemma registry_after_Suc:
  "j < length script \<Longrightarrow>
   registry_after script self (Suc j) =
     run_calls (snd (script ! j)) (registry_after script self j)"
  by (simp add: registry_after_def take_Suc_conv_app_nth run_calls_append)

lemma broadcast_drive_rounds:
  assumes len: "n \<le> length script"
    and sends: "\<forall>j < n. j < length (active_connections (registry_after script self j))"
    and ends: "\<not> n < length (active_connections (registry_after script self n))"
    and plain: "\<forall>j < n. fst (script ! j) \<noteq> Raised_BaseException"
    and i: "i < n"
  shows "broadcast_drive (drop i script) (registry_after script self i)
           (Suspended \<lparr>frame_message = message,
              awaited = active_connections (registry_after script self i) ! i,
              next_index = Suc i, frame_disconnected = disconnected\<rparr>) log =
         Some (Inr (foldl disconnect (registry_after script self n)
                 (disconnected @
                  map (\<lambda>j. active_connections (registry_after script self j) ! j)
                    (filter (\<lambda>j. fst (script ! j) = Raised_Exception) [i..<n]))),
               log @ map (\<lambda>j. (active_connections (registry_after script self j) ! j,
                               active_connections (registry_after script self j))) [i..<n])"
  using i
proof (induction "n - Suc i" arbitrary: i disconnected log)
  case 0
  then have last: "Suc i = n" by simp
  obtain result others where item: "script ! i = (result, others)" by (cases "script ! i")
  have iscript: "i < length script" using len "0.prems" by simp
  have dr: "drop i script = (result, others) # drop (Suc i) script"
    using Cons_nth_drop_Suc [OF iscript] item by simp
  have after: "run_calls others (registry_after script self i) = registry_after script self n"
    using registry_after_Suc [OF iscript, of self] item last by simp
  have nb: "result \<noteq> Raised_BaseException"
    using plain "0.prems" item by (metis fst_conv)
  have range: "[i..<n] = [i]"
    using last by (metis upt_rec lessI upt_conv_Nil order_refl not_less)
  show ?case
    using nb item ends
    by (cases result) (simp_all add: dr after range broadcast_resume_def broadcast_next_def last)
next
  case (Suc m)
  then have more: "Suc i < n" by simp
  obtain result others where item: "script ! i = (result, others)" by (cases "script ! i")
  have iscript: "i < length script" using len Suc.prems by simp
  have dr: "drop i script = (result, others) # drop (Suc i) script"
    using Cons_nth_drop_Suc [OF iscript] item by simp
  have after: "run_calls others (registry_after script self i) =
      registry_after script self (Suc i)"
    using registry_after_Suc [OF iscript, of self] item by simp
  have nb: "result \<noteq> Raised_BaseException"
    using plain Suc.prems item by (metis fst_conv)
  have next_send: "Suc i < length (active_connections (registry_after script self (Suc i)))"
    using sends more by simp
  have range: "[i..<n] = i # [Suc i..<n]"
    using Suc.prems by (simp add: upt_conv_Cons)
  have m: "m = n - Suc (Suc i)" using Suc.hyps(2) by simp
  note IH = Suc.hyps(1) [OF m more]
  show ?case
    using nb item next_send
    by (cases result) (simp_all add: dr after range broadcast_resume_def broadcast_next_def IH)
qed

lemma broadcast_interleaved_rounds:
  assumes len: "n \<le> length script"
    and sends: "\<forall>j < n. j < length (active_connections (registry_after script self j))"
    and ends: "\<not> n < length (active_connections (registry_after script self n))"
    and plain: "\<forall>j < n. fst (script ! j) \<noteq> Raised_BaseException"
  shows "broadcast_interleaved script self message =
         Some (Inr (foldl disconnect (registry_after script self n)
                 (map (\<lambda>j. active_connections (registry_after script self j) ! j)
                    (filter (\<lambda>j. fst (script ! j) = Raised_Exception) [0..<n]))),
               map (\<lambda>j. (active_connections (registry_after script self j) ! j,
                         active_connections (registry_after script self j))) [0..<n])"
proof (cases "n = 0")
  case True
  then show ?thesis
    using ends
    by (simp add: broadcast_interleaved_def broadcast_start_def broadcast_next_def
        registry_after_0)
next
  case False
  then have pos: "0 < n" by simp
  then have "0 < length (active_connections self)"
    using sends by (auto simp: registry_after_0)
  then have start: "broadcast_start self message =
      Suspended \<lparr>frame_message = message, awaited = active_connections self ! 0,
        next_index = Suc 0, frame_disconnected = []\<rparr>"
    by (simp add: broadcast_start_def broadcast_next_def)
  show ?thesis
    using broadcast_drive_rounds [OF len sends ends plain pos, of message "[]" "[]"]
    by (simp add: broadcast_interleaved_def start registry_after_0)
qed

lemma concat_snd_quiet: "\<forall>item \<in> set items. snd item = [] \<Longrightarrow> concat (map snd items) = []"
  by (induction items) simp_all

lemma registry_after_quiet:
  assumes "\<forall>item \<in> set script. snd item = []"
  shows "registry_after script self j = self"
proof -
  have "\<forall>item \<in> set (take j script). snd item = []"
    using assms by (auto dest: in_set_takeD)
  then have "concat (map snd (take j script)) = []"
    by (rule concat_snd_quiet)
  then show ?thesis
    unfolding registry_after_def by (simp only: run_calls.simps)
qed

lemma map_nth_fun: "map (\<lambda>j. f (xs ! j)) [0..<length xs] = map f xs"
proof -
  have "map (\<lambda>j. f (xs ! j)) [0..<length xs] = map f (map (\<lambda>j. xs ! j) [0..<length xs])"
    by simp
  then show ?thesis by (simp only: map_nth)
qed

text \<open>
  Claim C4, as stated, assumes only that no other task removes a connection. That is
  not enough. The registry holds websocket 1; while the send to 1 is awaited,
  websocket 2 connects.
  \<^item> The send to 2 fails: a member whose send failed was not present before the
    call.
  \<^item> The send to 1 fails and the send to 2 succeeds: the registry afterwards is
    \<open>[2]\<close>, not the earlier members less those whose send failed, which is empty.
\<close>

theorem broadcast_concurrent_add_counterexample:
  "broadcast_interleaved [(Sent, [Call_connect 2 Accepted]), (Raised_Exception, [])]
     \<lparr>active_connections = [1::nat]\<rparr> ''Test notification'' =
     Some (Inr \<lparr>active_connections = [1]\<rparr>, [(1, [1]), (2, [1, 2])]) \<and>
   2 \<notin> set (active_connections \<lparr>active_connections = [1::nat]\<rparr>) \<and>
   broadcast_interleaved [(Raised_Exception, [Call_connect 2 Accepted]), (Sent, [])]
     \<lparr>active_connections = [1::nat]\<rparr> ''Test notification'' =
     Some (Inr \<lparr>active_connections = [2]\<rparr>, [(1, [1]), (2, [1, 2])]) \<and>
   [2] \<noteq> filter (\<lambda>c. c \<notin> set [1]) (active_connections \<lparr>active_connections = [1::nat]\<rparr>)"
  by (simp add: broadcast_interleaved_def broadcast_start_def broadcast_next_def
      broadcast_resume_def connect_def disconnect_def)

text \<open>
  Claim C4, amended. Whatever the registry and the message, when no other task adds
  or removes a connection while a send of the pass is awaited and every send returns
  or fails with an \<^verbatim>\<open>Exception\<close>, \<^verbatim>\<open>broadcast\<close> returns normally. Every member is sent
  the message once, in order, and at each of these sends the registry still holds all
  the members it held before the call: nothing is removed during the iteration. The
  removals follow, one \<^verbatim>\<open>disconnect\<close> for each member whose send failed. The registry
  afterwards holds the earlier members less one entry for each failed send (as
  multisets), every member whose send failed was a member before, and on a registry
  without duplicates the result is the earlier list without exactly the members
  whose send failed, in the same order.
\<close>

theorem broadcast_undisturbed_removes_failed:
  assumes quiet: "\<forall>item \<in> set script. snd item = []"
    and long: "length (active_connections self) \<le> length script"
    and plain: "\<not> interrupted (\<lambda>k. fst (script ! k)) (length (active_connections self))"
  shows "\<exists>self'.
           broadcast_interleaved script self message =
             Some (Inr self',
                   map (\<lambda>connection. (connection, active_connections self))
                     (active_connections self)) \<and>
           self' = foldl disconnect self
                     (failed_members (\<lambda>k. fst (script ! k)) (active_connections self)) \<and>
           mset (active_connections self') =
             mset (active_connections self) -
             mset (failed_members (\<lambda>k. fst (script ! k)) (active_connections self)) \<and>
           set (failed_members (\<lambda>k. fst (script ! k)) (active_connections self)) \<subseteq>
             set (active_connections self) \<and>
           (distinct (active_connections self) \<longrightarrow>
              active_connections self' =
                filter (\<lambda>c. c \<notin> set (failed_members (\<lambda>k. fst (script ! k))
                                       (active_connections self)))
                  (active_connections self))"
proof -
  let ?n = "length (active_connections self)"
  have same: "registry_after script self j = self" for j
    by (rule registry_after_quiet [OF quiet])
  have sends: "\<forall>j < ?n. j < length (active_connections (registry_after script self j))"
    by (simp add: same)
  have ends: "\<not> ?n < length (active_connections (registry_after script self ?n))"
    by (simp add: same)
  have no_base: "\<forall>j < ?n. fst (script ! j) \<noteq> Raised_BaseException"
    using plain by (force simp: interrupted_def)
  have "broadcast_interleaved script self message =
      Some (Inr (foldl disconnect self
                  (failed_members (\<lambda>k. fst (script ! k)) (active_connections self))),
            map (\<lambda>connection. (connection, active_connections self))
              (active_connections self))"
    using broadcast_interleaved_rounds [OF long sends ends no_base, of message]
    by (simp add: same failed_members_def
        map_nth_fun [of "\<lambda>connection. (connection, active_connections self)"])
  then show ?thesis
    by (simp add: foldl_disconnect_mset failed_members_subset foldl_disconnect_distinct)
qed

theorem broadcast_undisturbed_removes_failed_witness:
  "broadcast_interleaved [(Sent, []), (Raised_Exception, []), (Sent, [])]
     \<lparr>active_connections = [10, 20, 30 :: nat]\<rparr> ''Test notification'' =
     Some (Inr \<lparr>active_connections = [10, 30]\<rparr>,
           [(10, [10, 20, 30]), (20, [10, 20, 30]), (30, [10, 20, 30])]) \<and>
   failed_members
     (\<lambda>k. fst (([(Sent, []), (Raised_Exception, []), (Sent, [])]
                  :: (send_result \<times> nat registry_call list) list) ! k))
     [10, 20, 30 :: nat] = [20]"
proof -
  let ?script = "[(Sent, []), (Raised_Exception, []), (Sent, [])]
      :: (send_result \<times> nat registry_call list) list"
  let ?self = "\<lparr>active_connections = [10, 20, 30 :: nat]\<rparr>"
  have quiet: "\<forall>item \<in> set ?script. snd item = []"
    by simp
  have long: "length (active_connections ?self) \<le> length ?script"
    by simp
  have plain: "\<not> interrupted (\<lambda>k. fst (?script ! k)) (length (active_connections ?self))"
    by (simp add: interrupted_def upt_rec)
  have failed: "failed_members (\<lambda>k. fst (?script ! k)) [10, 20, 30 :: nat] = [20]"
    by (simp add: failed_members_def upt_rec)
  show ?thesis
    using broadcast_undisturbed_removes_failed [OF quiet long plain, of "''Test notification''"]
      failed
    by (simp add: disconnect_def)
qed

text \<open>
  Claim C8, as stated: the enumeration of \<^verbatim>\<open>broadcast\<close> works on the membership as it
  was at one instant and sees no later add. It does not: there is no copy and no
  lock, the loop reads the shared list at each round. The registry holds websockets 1
  and 2. While the send to 2 is awaited, websocket 3 connects. The pass goes on to
  send to 3, which was no member when it began.
\<close>

theorem broadcast_sees_later_add:
  "broadcast_interleaved [(Sent, []), (Sent, [Call_connect 3 Accepted]), (Sent, [])]
     \<lparr>active_connections = [1::nat, 2]\<rparr> ''Test notification'' =
     Some (Inr \<lparr>active_connections = [1, 2, 3]\<rparr>,
           [(1, [1, 2]), (2, [1, 2]), (3, [1, 2, 3])]) \<and>
   map fst [(1::nat, [1::nat, 2]), (2, [1, 2]), (3, [1, 2, 3])] \<noteq>
     active_connections \<lparr>active_connections = [1::nat, 2]\<rparr>"
  by (simp add: broadcast_interleaved_def broadcast_start_def broadcast_next_def
      broadcast_resume_def connect_def disconnect_def)

text \<open>
  One connection added while the send of round \<open>k\<close> is awaited.
\<close>

lemma registry_after_one_add:
  assumes "k < length xs" and "j \<le> Suc (length xs)"
  shows "registry_after
           (map (\<lambda>j. (send_text j, if j = k then [Call_connect websocket Accepted] else []))
              [0..<Suc (length xs)])
           \<lparr>active_connections = xs\<rparr> j =
         (if j \<le> k then \<lparr>active_connections = xs\<rparr>
          else \<lparr>active_connections = xs @ [websocket]\<rparr>)"
  using assms(2)
proof (induction j)
  case 0
  then show ?case by (simp add: registry_after_0)
next
  case (Suc j)
  let ?script = "map (\<lambda>j. (send_text j, if j = k then [Call_connect websocket Accepted] else []))
      [0..<Suc (length xs)]"
  have j: "j < length ?script" using Suc.prems by simp
  have item: "?script ! j = (send_text j, if j = k then [Call_connect websocket Accepted] else [])"
    using Suc.prems by (simp add: nth_map_upt del: upt_Suc)
  have "registry_after ?script \<lparr>active_connections = xs\<rparr> (Suc j) =
      run_calls (snd (?script ! j)) (registry_after ?script \<lparr>active_connections = xs\<rparr> j)"
    by (rule registry_after_Suc [OF j])
  then show ?case
    using Suc.IH Suc.prems item by (auto simp: connect_def simp del: upt_Suc)
qed

text \<open>
  Claim C8, amended. The registry has no lock and \<^verbatim>\<open>broadcast\<close> takes no snapshot: the
  methods of the registry run between two awaits of the single event loop, and the
  enumeration of \<^verbatim>\<open>broadcast\<close> reads the live list at every round. For every registry,
  every round of the pass and every websocket that is not yet a member: when the
  websocket connects while the send of that round is awaited, and no other task
  touches the registry, the pass sends to the earlier members and then to the new
  one, and returns what an uninterrupted \<^verbatim>\<open>broadcast\<close> on the registry with the new
  member returns.
\<close>

theorem broadcast_sends_to_connection_added_during_pass:
  assumes k: "k < length xs"
    and plain: "\<not> interrupted send_text (Suc (length xs))"
    and fresh: "websocket \<notin> set xs"
  shows "\<exists>log.
           broadcast_interleaved
             (map (\<lambda>j. (send_text j, if j = k then [Call_connect websocket Accepted] else []))
                [0..<Suc (length xs)])
             \<lparr>active_connections = xs\<rparr> message =
             Some (broadcast send_text \<lparr>active_connections = xs @ [websocket]\<rparr> message, log) \<and>
           map fst log = xs @ [websocket]"
proof -
  let ?script = "map (\<lambda>j. (send_text j, if j = k then [Call_connect websocket Accepted] else []))
      [0..<Suc (length xs)]"
  let ?self = "\<lparr>active_connections = xs\<rparr>"
  let ?n = "Suc (length xs)"
  let ?all = "xs @ [websocket]"
  have after: "registry_after ?script ?self j =
      (if j \<le> k then ?self else \<lparr>active_connections = ?all\<rparr>)" if "j \<le> ?n" for j
    by (rule registry_after_one_add [OF k that])
  have item: "fst (?script ! j) = send_text j" if "j < ?n" for j
    using that by (simp add: nth_map_upt del: upt_Suc)
  have entry: "active_connections (registry_after ?script ?self j) ! j = ?all ! j"
    if "j < ?n" for j
    using that k after [of j] by (auto simp: nth_append simp del: upt_Suc)
  have len: "?n \<le> length ?script" by simp
  have sends: "\<forall>j < ?n. j < length (active_connections (registry_after ?script ?self j))"
    using k by (auto simp: after simp del: upt_Suc)
  have ends: "\<not> ?n < length (active_connections (registry_after ?script ?self ?n))"
    using k by (simp add: after del: upt_Suc)
  have no_base: "\<forall>j < ?n. fst (?script ! j) \<noteq> Raised_BaseException"
  proof (intro allI impI)
    fix j assume j: "j < ?n"
    then have "send_text j \<in> set (map send_text [0..<?n])" by (simp del: upt_Suc)
    then have "send_text j \<noteq> Raised_BaseException"
      using plain unfolding interrupted_def by metis
    then show "fst (?script ! j) \<noteq> Raised_BaseException"
      using item [OF j] by simp
  qed
  let ?log = "map (\<lambda>j. (active_connections (registry_after ?script ?self j) ! j,
      active_connections (registry_after ?script ?self j))) [0..<?n]"
  have failed: "map (\<lambda>j. active_connections (registry_after ?script ?self j) ! j)
        (filter (\<lambda>j. fst (?script ! j) = Raised_Exception) [0..<?n]) =
      failed_members send_text ?all"
  proof -
    have "filter (\<lambda>j. fst (?script ! j) = Raised_Exception) [0..<?n] =
        filter (\<lambda>j. send_text j = Raised_Exception) [0..<?n]"
      by (rule filter_cong) (auto simp: item simp del: upt_Suc)
    moreover have "map (\<lambda>j. active_connections (registry_after ?script ?self j) ! j)
        (filter (\<lambda>j. send_text j = Raised_Exception) [0..<?n]) =
        map (\<lambda>j. ?all ! j) (filter (\<lambda>j. send_text j = Raised_Exception) [0..<?n])"
      by (rule map_cong) (auto simp: entry simp del: upt_Suc)
    ultimately show ?thesis
      by (simp add: failed_members_def del: upt_Suc)
  qed
  have "broadcast_interleaved ?script ?self message =
      Some (Inr (foldl disconnect (registry_after ?script ?self ?n)
              (failed_members send_text ?all)), ?log)"
    using broadcast_interleaved_rounds [OF len sends ends no_base, of message]
    by (simp only: failed)
  moreover have "registry_after ?script ?self ?n = \<lparr>active_connections = ?all\<rparr>"
    using k by (simp add: after del: upt_Suc)
  moreover have "broadcast send_text \<lparr>active_connections = ?all\<rparr> message =
      Inr (foldl disconnect \<lparr>active_connections = ?all\<rparr> (failed_members send_text ?all))"
    using plain by (simp add: broadcast_returns)
  moreover have "map fst ?log = ?all"
  proof -
    have "map fst ?log = map (\<lambda>j. ?all ! j) [0..<?n]"
      unfolding map_map by (rule map_cong) (auto simp: entry simp del: upt_Suc)
    also have "\<dots> = map (\<lambda>j. ?all ! j) [0..<length ?all]" by simp
    also have "\<dots> = ?all" by (rule map_nth)
    finally show ?thesis .
  qed
  ultimately show ?thesis by (intro exI [of _ ?log]) simp
qed

theorem broadcast_sends_to_connection_added_during_pass_witness:
  "(0::nat) < length [10, 20 :: nat] \<and>
   \<not> interrupted (\<lambda>j. Sent) (Suc (length [10, 20 :: nat])) \<and>
   (30::nat) \<notin> set [10, 20] \<and>
   (\<exists>log. broadcast_interleaved
       [(Sent, [Call_connect 30 Accepted]), (Sent, []), (Sent, [])]
       \<lparr>active_connections = [10, 20 :: nat]\<rparr> ''Test notification'' =
       Some (Inr \<lparr>active_connections = [10, 20, 30]\<rparr>, log) \<and>
     map fst log = [10, 20, 30])"
proof -
  have k: "(0::nat) < length [10, 20 :: nat]" by simp
  have plain: "\<not> interrupted (\<lambda>j. Sent) (Suc (length [10, 20 :: nat]))"
    by (simp add: interrupted_def)
  have fresh: "(30::nat) \<notin> set [10, 20]" by simp
  have all_sent: "broadcast (\<lambda>j. Sent) \<lparr>active_connections = [10, 20, 30 :: nat]\<rparr>
      ''Test notification'' = Inr \<lparr>active_connections = [10, 20, 30]\<rparr>"
    by (simp add: broadcast_returns interrupted_def failed_members_def)
  show ?thesis
    using broadcast_sends_to_connection_added_during_pass
      [OF k plain fresh, of "''Test notification''"] all_sent k plain fresh
    by (simp add: upt_rec)
qed

text \<open>
  A disconnect during the pass is not part of the statement above. The second loop
  (lines 77--79) puts the removals of \<^verbatim>\<open>broadcast\<close> itself after the iteration, so that
  they do not disturb it; a \<^verbatim>\<open>disconnect\<close> by another task while a send is awaited does
  disturb it. The registry holds 1 and 2; while the send to 1 is awaited, the endpoint
  of 1 disconnects it. The list is now \<open>[2]\<close>, the iterator stands at index 1 and the
  loop ends: 2 was a member all the time and is sent nothing.
\<close>

lemma broadcast_skips_after_concurrent_disconnect:
  "broadcast_interleaved [(Sent, [Call_disconnect 1])]
     \<lparr>active_connections = [1::nat, 2]\<rparr> ''Test notification'' =
     Some (Inr \<lparr>active_connections = [2]\<rparr>, [(1, [1, 2])])"
  by (simp add: broadcast_interleaved_def broadcast_start_def broadcast_next_def
      broadcast_resume_def connect_def disconnect_def)

section \<open>Runs of the application\<close>

lemmas machine_defs =
  run_def lifespan_startup_def init_manager_def get_status_def handle_signal_def
  notify_loop_test_def notify_in_broadcast_def notify_clients_periodically_def
  shutdown_poll_def shutdown_after_broadcast_def graceful_shutdown_def
  broadcast_start_def broadcast_next_def broadcast_resume_def
  connect_def disconnect_def count_connections_def is_empty_def
  seconds_def drain_timeout_def

text \<open>
  Claim C2 says that the status reports \<^verbatim>\<open>shutdown_requested\<close> as true exactly when the
  timestamp of the request is present. The run: the notify task starts and sleeps,
  client 1 connects, a signal arrives, the shutdown task records the instant 0,
  sends the warning to client 1 and, the send done, sleeps in its drain loop
  (deadline at 1800 s, next poll at 5 s). A status query now reports one connection
  and the timestamp of the request, with \<^verbatim>\<open>shutdown_requested\<close> false.
\<close>

theorem status_while_draining:
  "get_status
     (run [Run_notify Sent, Client_connects 1 Accepted, Signal,
           Run_shutdown 0 Sent, Run_shutdown 0 Sent]
        (lifespan_startup 0 :: nat server)) =
   \<lparr>status_active_connections = 1, status_shutdown_requested = False,
    status_shutdown_requested_at = Some 0\<rparr>"
  by (simp add: machine_defs)

text \<open>
  Claim C1 says that a second \<^verbatim>\<open>graceful_shutdown\<close> has no effect. The run above goes
  on: one second later a second signal arrives. \<^verbatim>\<open>shutdown_event\<close> is not set yet, so
  \<^verbatim>\<open>handle_signal\<close> creates a second task. It overwrites \<^verbatim>\<open>shutdown_requested_at\<close> with
  the new instant, sends the warning to client 1 a second time and starts a drain
  loop with a deadline of its own.
\<close>

theorem second_signal_repeats_shutdown:
  "(let draining =
          run [Run_notify Sent, Client_connects 1 Accepted, Signal,
               Run_shutdown 0 Sent, Run_shutdown 0 Sent]
            (lifespan_startup 0 :: nat server);
        again = run [Tick 1000000, Signal, Run_shutdown 1 Sent, Run_shutdown 1 Sent] draining
    in shutdown_requested_at draining = Some 0 \<and>
       outbox draining = [(1, shutdown_warning)] \<and>
       shutdown_tasks draining = [Shutdown_sleeping 1800000000 5000000] \<and>
       shutdown_requested_at again = Some 1000000 \<and>
       outbox again = [(1, shutdown_warning), (1, shutdown_warning)] \<and>
       shutdown_tasks again =
         [Shutdown_sleeping 1800000000 5000000, Shutdown_sleeping 1801000000 6000000])"
  by (simp add: machine_defs Let_def)

text \<open>
  Claim C5 says that no periodic notification is broadcast once \<^verbatim>\<open>shutdown_event\<close> is
  set. The run: the notify task passes its loop test at 0 s and sleeps until 10 s. At
  1 s a signal arrives; the registry is empty, so the shutdown task finds nothing to
  drain and sets the event. At 2 s client 1 connects. At 10 s the notify task wakes
  up, counts one connection and sends it the notification, with the event set since
  1 s.
\<close>

theorem notification_after_complete:
  "(let complete =
          run [Run_notify Sent, Tick 1000000, Signal, Run_shutdown 0 Sent]
            (lifespan_startup 0 :: nat server);
        later = run [Tick 1000000, Client_connects 1 Accepted, Tick 8000000, Run_notify Sent]
                  complete
    in shutdown_event complete \<and>
       shutdown_tasks complete = [Shutdown_returned] \<and>
       notify_task complete = Notify_sleeping 10000000 \<and>
       outbox complete = [] \<and>
       clock later = 10000000 \<and>
       outbox later = [(1, notification)])"
  by (simp add: machine_defs Let_def)

section \<open>Invariants of the runs\<close>

lemma requested_inv_startup: "requested_inv (lifespan_startup now)"
  by (simp add: requested_inv_def lifespan_startup_def)

lemma graceful_shutdown_requested:
  assumes "graceful_shutdown result pc app = (pc', app')"
    and "pc = Shutdown_created \<or> shutdown_requested_at app \<noteq> None"
  shows "shutdown_requested_at app' \<noteq> None"
  using assms
  by (auto simp: graceful_shutdown_def shutdown_after_broadcast_def shutdown_poll_def
      split: shutdown_pc.splits broadcast_status.splits option.splits if_splits)

lemma notify_keeps_shutdown_state:
  "shutdown_event (notify_clients_periodically result app) = shutdown_event app \<and>
   shutdown_requested_at (notify_clients_periodically result app) = shutdown_requested_at app \<and>
   shutdown_tasks (notify_clients_periodically result app) = shutdown_tasks app"
  by (simp add: notify_clients_periodically_def notify_in_broadcast_def notify_loop_test_def
      split: notify_pc.splits broadcast_status.splits)

lemma requested_inv_step: "requested_inv app \<Longrightarrow> requested_inv (step event app)"
proof (cases event)
  case (Run_shutdown k result)
  assume inv: "requested_inv app"
  show ?thesis
  proof (cases "k < length (shutdown_tasks app)")
    case False
    then show ?thesis using inv Run_shutdown by simp
  next
    case True
    obtain pc' app' where
      gs: "graceful_shutdown result (shutdown_tasks app ! k) app = (pc', app')"
      by (cases "graceful_shutdown result (shutdown_tasks app ! k) app")
    have "shutdown_tasks app ! k \<in> set (shutdown_tasks app)"
      using True by simp
    then have "shutdown_tasks app ! k = Shutdown_created \<or> shutdown_requested_at app \<noteq> None"
      using inv by (auto simp: requested_inv_def)
    then have "shutdown_requested_at app' \<noteq> None"
      by (rule graceful_shutdown_requested [OF gs])
    then show ?thesis
      using Run_shutdown True gs by (auto simp: requested_inv_def)
  qed
next
  case (Run_notify result)
  then show "requested_inv app \<Longrightarrow> ?thesis"
    by (simp add: requested_inv_def notify_keeps_shutdown_state)
qed (auto simp: requested_inv_def handle_signal_def split: sum.splits)

lemma requested_inv_run: "requested_inv app \<Longrightarrow> requested_inv (run events app)"
  unfolding run_def
  by (induction events arbitrary: app) (simp_all add: requested_inv_step)

text \<open>
  In every state the application reaches from its start, a set \<^verbatim>\<open>shutdown_event\<close> comes
  with a recorded \<^verbatim>\<open>shutdown_requested_at\<close>: when the status reports
  \<^verbatim>\<open>shutdown_requested\<close> as true, it also reports the timestamp.
\<close>

theorem event_set_implies_timestamp:
  "shutdown_event (run events (lifespan_startup now)) \<Longrightarrow>
   shutdown_requested_at (run events (lifespan_startup now)) \<noteq> None"
  using requested_inv_run [OF requested_inv_startup, of events now]
  by (auto simp: requested_inv_def)

theorem event_set_implies_timestamp_witness:
  "shutdown_event
     (run [Run_notify Sent, Tick 1000000, Signal, Run_shutdown 0 Sent]
        (lifespan_startup 0 :: nat server)) \<and>
   shutdown_requested_at
     (run [Run_notify Sent, Tick 1000000, Signal, Run_shutdown 0 Sent]
        (lifespan_startup 0 :: nat server)) \<noteq> None"
  using event_set_implies_timestamp
    [of "[Run_notify Sent, Tick 1000000, Signal, Run_shutdown 0 Sent] :: nat event list" 0]
  by (simp add: machine_defs)

lemma event_stays_set_step: "shutdown_event app \<Longrightarrow> shutdown_event (step event app)"
proof (cases event)
  case (Run_shutdown k result)
  assume "shutdown_event app"
  then show ?thesis
    using Run_shutdown
    by (auto simp: graceful_shutdown_def shutdown_after_broadcast_def shutdown_poll_def
      split: shutdown_pc.splits broadcast_status.splits option.splits if_splits prod.splits)
next
  case (Run_notify result)
  then show "shutdown_event app \<Longrightarrow> ?thesis"
    by (simp add: notify_keeps_shutdown_state)
qed (auto simp: handle_signal_def split: sum.splits)

text \<open>
  No step of the application clears \<^verbatim>\<open>shutdown_event\<close>: once it is set it stays set,
  whatever happens next.
\<close>

theorem event_stays_set:
  "shutdown_event app \<Longrightarrow> shutdown_event (run events app)"
  unfolding run_def
  by (induction events arbitrary: app) (simp_all add: event_stays_set_step)

theorem event_stays_set_witness:
  "shutdown_event
     (run [Run_notify Sent, Tick 1000000, Signal, Run_shutdown 0 Sent]
        (lifespan_startup 0 :: nat server)) \<and>
   shutdown_event
     (run [Tick 1000000, Client_connects 1 Accepted, Tick 8000000, Run_notify Sent, Signal]
        (run [Run_notify Sent, Tick 1000000, Signal, Run_shutdown 0 Sent]
           (lifespan_startup 0 :: nat server)))"
  using event_stays_set
    [of "run [Run_notify Sent, Tick 1000000, Signal, Run_shutdown 0 Sent]
           (lifespan_startup 0 :: nat server)"
        "[Tick 1000000, Client_connects 1 Accepted, Tick 8000000, Run_notify Sent, Signal]"]
  by (simp add: machine_defs)

end
